theory Spec2Isabelle
  imports Complex_Main
begin

section \<open>Values exchanged with the REST API\<close>

text \<open>
  The program handles whatever \<^verbatim>\<open>response.json()\<close> returns: \<^verbatim>\<open>None\<close>, booleans,
  numbers, strings, lists and dictionaries. A dictionary is an association list (the
  order of the keys is the order of iteration; lookup takes the first entry of a key).
  A float is a real number; Python's NaN and infinities, which are truthy like every
  float but zero, are not represented. The strings inside these values are lists of
  8-bit characters, read as the code points below 256 (\<open>lit\<close>). The string operations
  of the program work on Python strings proper, lists of Unicode code points
  (\<open>pystr\<close>), and so do the values they return.
\<close>

datatype json =
    JNull
  | JBool bool
  | JInt int
  | JFloat real
  | JStr string
  | JList "json list"
  | JDict "(string \<times> json) list"

text \<open>The exceptions the program can meet; \<open>SystemExit\<close> carries the exit status.\<close>

datatype py_exn =
    SystemExit int
  | AttributeError
  | TypeError
  | KeyError
  | JSONDecodeError

text \<open>Truth value of a Python object, as \<^verbatim>\<open>if not x\<close> tests it.\<close>

fun truthy :: "json \<Rightarrow> bool" where
  "truthy JNull = False"
| "truthy (JBool b) = b"
| "truthy (JInt i) = (i \<noteq> 0)"
| "truthy (JFloat r) = (r \<noteq> 0)"
| "truthy (JStr s) = (s \<noteq> [])"
| "truthy (JList xs) = (xs \<noteq> [])"
| "truthy (JDict kvs) = (kvs \<noteq> [])"

text \<open>\<^verbatim>\<open>x or d\<close>\<close>

definition py_or :: "json \<Rightarrow> json \<Rightarrow> json" where
  "py_or x d = (if truthy x then x else d)"

text \<open>
  \<^verbatim>\<open>d.get(k, default)\<close>: only a dictionary has the method; on any other value the
  attribute lookup raises \<open>AttributeError\<close>.
\<close>

definition dict_get :: "(string \<times> json) list \<Rightarrow> string \<Rightarrow> json \<Rightarrow> json" where
  "dict_get kvs k d = (case map_of kvs k of Some v \<Rightarrow> v | None \<Rightarrow> d)"

fun py_get :: "json \<Rightarrow> string \<Rightarrow> json \<Rightarrow> py_exn + json" where
  "py_get (JDict kvs) k d = Inr (dict_get kvs k d)"
| "py_get _ k d = Inl AttributeError"

text \<open>
  \<^verbatim>\<open>x[k]\<close> with a string key \<open>k\<close>: a dictionary without the key raises \<open>KeyError\<close>;
  strings and lists want integer indices and the other values are not subscriptable,
  which is \<open>TypeError\<close>.
\<close>

fun py_index :: "json \<Rightarrow> string \<Rightarrow> py_exn + json" where
  "py_index (JDict kvs) k = (case map_of kvs k of Some v \<Rightarrow> Inr v | None \<Rightarrow> Inl KeyError)"
| "py_index _ k = Inl TypeError"

text \<open>
  The elements \<^verbatim>\<open>list.extend(x)\<close> appends: the items of a list, the characters of a
  string, the keys of a dictionary; anything else is not iterable.
\<close>

fun py_iter :: "json \<Rightarrow> py_exn + json list" where
  "py_iter (JList xs) = Inr xs"
| "py_iter (JStr s) = Inr (map (\<lambda>c. JStr [c]) s)"
| "py_iter (JDict kvs) = Inr (map (\<lambda>kv. JStr (fst kv)) kvs)"
| "py_iter _ = Inl TypeError"

definition list_extend :: "json list \<Rightarrow> json \<Rightarrow> py_exn + json list" where
  "list_extend xs x = (case py_iter x of Inl e \<Rightarrow> Inl e | Inr ys \<Rightarrow> Inr (xs @ ys))"

text \<open>
  \<^verbatim>\<open>xs[:m]\<close> for a Python integer \<open>m\<close>: a negative bound counts from the end.
\<close>

definition slice_to :: "int \<Rightarrow> 'a list \<Rightarrow> 'a list" where
  "slice_to m xs = (if 0 \<le> m then take (nat m) xs else take (length xs - nat (- m)) xs)"

subsection \<open>Strings\<close>

text \<open>A Python string is the list of its Unicode code points.\<close>

type_synonym pystr = "nat list"

definition lit :: "string \<Rightarrow> pystr" where
  "lit s = map of_char s"

definition at_sign :: nat where
  "at_sign = of_char CHR ''@''"

text \<open>
  \<^verbatim>\<open>str.isspace\<close> on one code point, which is what \<^verbatim>\<open>str.strip()\<close> removes: the
  ASCII controls 9 to 13 and 28 to 31, the space, U+0085, U+00A0, U+1680, U+2000 to
  U+200A, U+2028, U+2029, U+202F, U+205F and U+3000.
\<close>

definition is_space :: "nat \<Rightarrow> bool" where
  "is_space c \<longleftrightarrow>
     (9 \<le> c \<and> c \<le> 13) \<or> (28 \<le> c \<and> c \<le> 32) \<or> c = 133 \<or> c = 160 \<or> c = 5760 \<or>
     (8192 \<le> c \<and> c \<le> 8202) \<or> c = 8232 \<or> c = 8233 \<or> c = 8239 \<or> c = 8287 \<or> c = 12288"

definition strip :: "pystr \<Rightarrow> pystr" where
  "strip s = rev (dropWhile is_space (rev (dropWhile is_space s)))"

text \<open>
  \<^verbatim>\<open>str.upper()\<close> replaces every code point by its upper-case mapping, one to three
  code points, whatever stands around it. The table of these mappings is Unicode's, not
  the repository's: it is the parameter \<open>to_upper\<close>.
\<close>

definition upper :: "(nat \<Rightarrow> pystr) \<Rightarrow> pystr \<Rightarrow> pystr" where
  "upper to_upper s = concat (map to_upper s)"

text \<open>
  What is used of the table: no mapping is empty; the code points of a mapping are
  their own mappings; white space is mapped to itself, and nothing else to a string that
  ends in white space; \<^verbatim>\<open>@\<close> is mapped to itself.
\<close>

definition unicode_upper :: "(nat \<Rightarrow> pystr) \<Rightarrow> bool" where
  "unicode_upper to_upper \<longleftrightarrow>
     (\<forall>c. to_upper c \<noteq> [] \<and>
          upper to_upper (to_upper c) = to_upper c \<and>
          (is_space c \<longrightarrow> to_upper c = [c]) \<and>
          (\<not> is_space c \<longrightarrow> \<not> is_space (last (to_upper c)))) \<and>
     to_upper at_sign = [at_sign]"

text \<open>
  The table on the code points below 256, which are all that a string inside a JSON
  value of this theory has: the letters a to z, the micro sign (to U+039C), the sharp s
  (to SS), the letters U+00E0 to U+00FE but the division sign, and U+00FF (to U+0178).
  Above 255 it is left as the identity and is not Python's table.
\<close>

definition latin1_upper :: "nat \<Rightarrow> pystr" where
  "latin1_upper c =
     (if 97 \<le> c \<and> c \<le> 122 then [c - 32]
      else if c = 181 then [924]
      else if c = 223 then [83, 83]
      else if 224 \<le> c \<and> c \<le> 254 \<and> c \<noteq> 247 then [c - 32]
      else if c = 255 then [376]
      else [c])"

text \<open>
  \<^verbatim>\<open>str.lower()\<close> on ASCII text, which \<^verbatim>\<open>str(b)\<close> of a boolean is.
\<close>

definition lower_char :: "char \<Rightarrow> char" where
  "lower_char c = (let n = (of_char c :: nat) in if 65 \<le> n \<and> n \<le> 90 then char_of (n + 32) else c)"

definition lower :: "string \<Rightarrow> string" where
  "lower s = map lower_char s"

text \<open>\<^verbatim>\<open>str(b)\<close> of a boolean.\<close>

definition str_bool :: "bool \<Rightarrow> string" where
  "str_bool b = (if b then ''True'' else ''False'')"

section \<open>Helper functions of the program\<close>

text \<open>
  \<^verbatim>\<open>get_github_token\<close>: the argument is the value of \<^verbatim>\<open>os.getenv('GITHUB_TOKEN')\<close>
  (\<open>None\<close> when the variable is unset); the result is the lines printed and either the
  exception raised or the value returned.
\<close>

definition token_missing :: "string list \<times> (py_exn + pystr)" where
  "token_missing =
     ([''Error: GitHub Personal Access Token (PAT) not found in environment variables.'',
       ''Please set the 'GITHUB_TOKEN' environment variable and try again.''],
      Inl (SystemExit 1))"

definition get_github_token :: "pystr option \<Rightarrow> string list \<times> (py_exn + pystr)" where
  "get_github_token env =
     (case env of
        None \<Rightarrow> token_missing
      | Some token \<Rightarrow> if token = [] then token_missing else ([], Inr (strip token)))"

text \<open>
  \<^verbatim>\<open>clean_company\<close> on a string argument, any Python string: the empty string is falsy
  and returned as it is; otherwise trim, drop one leading \<^verbatim>\<open>@\<close>, upper-case.
\<close>

definition clean_company_str :: "(nat \<Rightarrow> pystr) \<Rightarrow> pystr \<Rightarrow> pystr" where
  "clean_company_str to_upper company =
     (if company = [] then []
      else let company1 = strip company;
               company2 = (if company1 \<noteq> [] \<and> hd company1 = at_sign then tl company1 else company1)
           in upper to_upper company2)"

text \<open>
  \<^verbatim>\<open>clean_company\<close> on a value of the API: a falsy argument gives the empty string; a
  truthy one must be a string, since nothing else has \<^verbatim>\<open>strip\<close>.
\<close>

definition clean_company :: "json \<Rightarrow> py_exn + pystr" where
  "clean_company company =
     (if \<not> truthy company then Inr []
      else case company of
        JStr s \<Rightarrow> Inr (clean_company_str latin1_upper (lit s))
      | _ \<Rightarrow> Inl AttributeError)"

text \<open>\<^verbatim>\<open>handle_boolean\<close>\<close>

definition handle_boolean :: "json \<Rightarrow> string" where
  "handle_boolean v = (case v of JBool b \<Rightarrow> lower (str_bool b) | _ \<Rightarrow> [])"

section \<open>The HTTP boundary\<close>

text \<open>
  What the program reads of a response: the status, the body as \<^verbatim>\<open>response.json()\<close>
  parses it (\<open>None\<close> when the body is not JSON and the call raises), and whether
  \<^verbatim>\<open>response.links\<close> has a \<^verbatim>\<open>next\<close> entry.
\<close>

record response =
  status_code :: int
  body :: "json option"
  has_next :: bool

text \<open>
  The three requests the program issues, with the parameters that vary: the search
  (location, follower threshold, page), the details of a user, and a page of a user's
  repositories. The headers and the page sizes are the same throughout a run.
\<close>

datatype request =
    SearchUsers string int int
  | UserDetails json
  | UserRepos json int

text \<open>
  The server is any sequence of responses: the \<open>i\<close>-th request of a run is answered
  by \<open>w i\<close>. The state threaded through the program is the list of exchanges so far.
  Every request is answered; a transport failure, on which \<^verbatim>\<open>requests.get\<close> itself
  raises, is outside this model.
\<close>

type_synonym event = "request \<times> response"
type_synonym world = "nat \<Rightarrow> response"

definition requests_get :: "world \<Rightarrow> event list \<Rightarrow> request \<Rightarrow> response \<times> event list" where
  "requests_get w tr req = (let response = w (length tr) in (response, tr @ [(req, response)]))"

definition response_json :: "response \<Rightarrow> py_exn + json" where
  "response_json response = (case body response of None \<Rightarrow> Inl JSONDecodeError | Some data \<Rightarrow> Inr data)"

text \<open>The exchanges added between two states of the run.\<close>

definition new_events :: "event list \<Rightarrow> event list \<Rightarrow> event list" where
  "new_events tr tr' = drop (length tr) tr'"

section \<open>The fetchers\<close>

definition MAX_USER_PAGES :: int where
  "MAX_USER_PAGES = 10"

definition MAX_REPOS_PER_USER :: int where
  "MAX_REPOS_PER_USER = 500"

text \<open>How one pass through a loop body ends: \<^verbatim>\<open>break\<close>, or on to the next pass.\<close>

datatype 'a flow = Break 'a | Next 'a

text \<open>
  The body of the loop of \<^verbatim>\<open>fetch_users\<close>, after the request: the list of users it
  leaves, or the exception it raises.
\<close>

definition users_iteration :: "response \<Rightarrow> json list \<Rightarrow> py_exn + json list flow" where
  "users_iteration response users =
     (if status_code response \<noteq> 200 then Inr (Break users)
      else case response_json response of
        Inl e \<Rightarrow> Inl e
      | Inr data \<Rightarrow>
          (case py_get data ''items'' (JList []) of
             Inl e \<Rightarrow> Inl e
           | Inr fetched_users \<Rightarrow>
               (case list_extend users fetched_users of
                  Inl e \<Rightarrow> Inl e
                | Inr users' \<Rightarrow>
                    if \<not> has_next response then Inr (Break users') else Inr (Next users'))))"

text \<open>\<^verbatim>\<open>for page in range(1, max_pages + 1)\<close>, over the list of the pages.\<close>

fun fetch_users_loop ::
  "world \<Rightarrow> string \<Rightarrow> int \<Rightarrow> int list \<Rightarrow> event list \<Rightarrow> json list
     \<Rightarrow> (py_exn + json list) \<times> event list" where
  "fetch_users_loop w location min_followers [] tr users = (Inr users, tr)"
| "fetch_users_loop w location min_followers (page # pages) tr users =
     (case requests_get w tr (SearchUsers location min_followers page) of
        (response, tr') \<Rightarrow>
          (case users_iteration response users of
             Inl e \<Rightarrow> (Inl e, tr')
           | Inr (Break users') \<Rightarrow> (Inr users', tr')
           | Inr (Next users') \<Rightarrow> fetch_users_loop w location min_followers pages tr' users'))"

definition fetch_users ::
  "world \<Rightarrow> event list \<Rightarrow> string \<Rightarrow> int \<Rightarrow> int \<Rightarrow> (py_exn + json list) \<times> event list" where
  "fetch_users w tr location min_followers max_pages =
     fetch_users_loop w location min_followers [1..max_pages] tr []"

text \<open>
  \<^verbatim>\<open>fetch_user_details\<close>: what it returns for a response, and the call itself.
\<close>

definition details_of :: "response \<Rightarrow> py_exn + json" where
  "details_of response =
     (if status_code response \<noteq> 200 then Inr (JDict []) else response_json response)"

definition fetch_user_details ::
  "world \<Rightarrow> event list \<Rightarrow> json \<Rightarrow> (py_exn + json) \<times> event list" where
  "fetch_user_details w tr username =
     (case requests_get w tr (UserDetails username) of
        (response, tr') \<Rightarrow> (details_of response, tr'))"

text \<open>The body of the loop of \<^verbatim>\<open>fetch_repositories\<close>, after the request.\<close>

definition repos_iteration :: "response \<Rightarrow> int \<Rightarrow> json list \<Rightarrow> py_exn + json list flow" where
  "repos_iteration response max_repos repos =
     (if status_code response \<noteq> 200 then Inr (Break repos)
      else case response_json response of
        Inl e \<Rightarrow> Inl e
      | Inr data \<Rightarrow>
          if \<not> truthy data then Inr (Break repos)
          else (case list_extend repos data of
                  Inl e \<Rightarrow> Inl e
                | Inr repos' \<Rightarrow>
                    if max_repos \<le> int (length repos') \<or> \<not> has_next response
                    then Inr (Break repos') else Inr (Next repos')))"

text \<open>
  \<^verbatim>\<open>while True\<close>: nothing in the shape of the loop bounds it, so the result is an
  option and \<open>None\<close> stands for a loop that never ends.
\<close>

partial_function (option) fetch_repositories_loop ::
  "world \<Rightarrow> json \<Rightarrow> int \<Rightarrow> int \<Rightarrow> event list \<Rightarrow> json list
     \<Rightarrow> ((py_exn + json list) \<times> event list) option" where
  "fetch_repositories_loop w username max_repos page tr repos =
     (case requests_get w tr (UserRepos username page) of
        (response, tr') \<Rightarrow>
          (case repos_iteration response max_repos repos of
             Inl e \<Rightarrow> Some (Inl e, tr')
           | Inr (Break repos') \<Rightarrow> Some (Inr repos', tr')
           | Inr (Next repos') \<Rightarrow> fetch_repositories_loop w username max_repos (page + 1) tr' repos'))"

declare fetch_repositories_loop.simps [code]

definition fetch_repositories ::
  "world \<Rightarrow> event list \<Rightarrow> json \<Rightarrow> int \<Rightarrow> ((py_exn + json list) \<times> event list) option" where
  "fetch_repositories w tr username max_repos =
     (case fetch_repositories_loop w username max_repos 1 tr [] of
        None \<Rightarrow> None
      | Some (Inl e, tr') \<Rightarrow> Some (Inl e, tr')
      | Some (Inr repos, tr') \<Rightarrow> Some (Inr (slice_to max_repos repos), tr'))"

text \<open>
  The items one successful page adds to the accumulator: of the search, the elements of
  the \<^verbatim>\<open>items\<close> entry of the body; of the listing, the elements of the body.
\<close>

definition search_page_items :: "response \<Rightarrow> json list" where
  "search_page_items response =
     (case response_json response of
        Inl e \<Rightarrow> []
      | Inr data \<Rightarrow>
          (case py_get data ''items'' (JList []) of
             Inl e \<Rightarrow> []
           | Inr fetched \<Rightarrow> (case py_iter fetched of Inl e \<Rightarrow> [] | Inr xs \<Rightarrow> xs)))"

definition listing_page_items :: "response \<Rightarrow> json list" where
  "listing_page_items response =
     (case response_json response of
        Inl e \<Rightarrow> []
      | Inr data \<Rightarrow> (case py_iter data of Inl e \<Rightarrow> [] | Inr xs \<Rightarrow> xs))"

section \<open>The two output tables\<close>

text \<open>
  The fields are values of the kind the API sends, a normalised boolean being a string;
  \<open>company\<close> is the Python string \<^verbatim>\<open>clean_company\<close> returns.
\<close>

record user_record =
  login :: json
  name :: json
  company :: pystr
  location :: json
  email :: json
  hireable :: json
  bio :: json
  public_repos :: json
  followers :: json
  following :: json
  created_at :: json

record repo_record =
  repo_login :: json
  full_name :: json
  repo_created_at :: json
  stargazers_count :: json
  watchers_count :: json
  language :: json
  has_projects :: json
  has_wiki :: json
  license_name :: json

text \<open>
  The dictionary \<^verbatim>\<open>user_data\<close> of \<^verbatim>\<open>main\<close>. The details are truthy here; a truthy
  value that is no dictionary has no \<^verbatim>\<open>get\<close>.
\<close>

definition user_data :: "json \<Rightarrow> py_exn + user_record" where
  "user_data details =
     (case details of
        JDict kvs \<Rightarrow>
          (case clean_company (dict_get kvs ''company'' JNull) of
             Inl e \<Rightarrow> Inl e
           | Inr c \<Rightarrow>
               Inr \<lparr> login = dict_get kvs ''login'' (JStr []),
                     name = py_or (dict_get kvs ''name'' JNull) (JStr []),
                     company = c,
                     location = py_or (dict_get kvs ''location'' JNull) (JStr []),
                     email = py_or (dict_get kvs ''email'' JNull) (JStr []),
                     hireable = JStr (handle_boolean (dict_get kvs ''hireable'' JNull)),
                     bio = py_or (dict_get kvs ''bio'' JNull) (JStr []),
                     public_repos = dict_get kvs ''public_repos'' (JInt 0),
                     followers = dict_get kvs ''followers'' (JInt 0),
                     following = dict_get kvs ''following'' (JInt 0),
                     created_at = dict_get kvs ''created_at'' (JStr []) \<rparr>)
      | _ \<Rightarrow> Inl AttributeError)"

text \<open>
  \<^verbatim>\<open>repo['license']['key'] if repo.get('license') else ''\<close>, for a repository that is a
  dictionary with the entries \<open>kvs\<close>.
\<close>

definition license_key :: "(string \<times> json) list \<Rightarrow> py_exn + json" where
  "license_key kvs =
     (if truthy (dict_get kvs ''license'' JNull) then
        (case py_index (JDict kvs) ''license'' of
           Inl e \<Rightarrow> Inl e
         | Inr license \<Rightarrow> py_index license ''key'')
      else Inr (JStr []))"

text \<open>The dictionary \<^verbatim>\<open>repo_data\<close> of \<^verbatim>\<open>main\<close>.\<close>

definition repo_data :: "json \<Rightarrow> json \<Rightarrow> py_exn + repo_record" where
  "repo_data username repo =
     (case repo of
        JDict kvs \<Rightarrow>
          (case license_key kvs of
             Inl e \<Rightarrow> Inl e
           | Inr l \<Rightarrow>
               Inr \<lparr> repo_login = username,
                     full_name = dict_get kvs ''full_name'' (JStr []),
                     repo_created_at = dict_get kvs ''created_at'' (JStr []),
                     stargazers_count = dict_get kvs ''stargazers_count'' (JInt 0),
                     watchers_count = dict_get kvs ''watchers_count'' (JInt 0),
                     language = py_or (dict_get kvs ''language'' JNull) (JStr []),
                     has_projects = JStr (handle_boolean (dict_get kvs ''has_projects'' JNull)),
                     has_wiki = JStr (handle_boolean (dict_get kvs ''has_wiki'' JNull)),
                     license_name = l \<rparr>)
      | _ \<Rightarrow> Inl AttributeError)"

text \<open>\<^verbatim>\<open>for repo in repos\<close>\<close>

fun repo_rows :: "json \<Rightarrow> json list \<Rightarrow> repo_record list \<Rightarrow> py_exn + repo_record list" where
  "repo_rows username [] all_repositories = Inr all_repositories"
| "repo_rows username (repo # repos) all_repositories =
     (case repo_data username repo of
        Inl e \<Rightarrow> Inl e
      | Inr rd \<Rightarrow> repo_rows username repos (all_repositories @ [rd]))"

section \<open>The pipeline\<close>

text \<open>
  \<^verbatim>\<open>for idx, user in enumerate(users, start=1)\<close> of \<^verbatim>\<open>main\<close>, with the two
  accumulators. The result is \<open>None\<close> only if a listing loop does not end.
\<close>

fun process_users ::
  "world \<Rightarrow> json list \<Rightarrow> event list \<Rightarrow> user_record list \<Rightarrow> repo_record list
     \<Rightarrow> ((py_exn + user_record list \<times> repo_record list) \<times> event list) option" where
  "process_users w [] tr processed_users all_repositories =
     Some (Inr (processed_users, all_repositories), tr)"
| "process_users w (user # users) tr processed_users all_repositories =
     (case py_get user ''login'' JNull of
        Inl e \<Rightarrow> Some (Inl e, tr)
      | Inr username \<Rightarrow>
          (case fetch_user_details w tr username of
             (Inl e, tr1) \<Rightarrow> Some (Inl e, tr1)
           | (Inr details, tr1) \<Rightarrow>
               if \<not> truthy details then process_users w users tr1 processed_users all_repositories
               else (case user_data details of
                  Inl e \<Rightarrow> Some (Inl e, tr1)
                | Inr ud \<Rightarrow>
                    (case fetch_repositories w tr1 username MAX_REPOS_PER_USER of
                       None \<Rightarrow> None
                     | Some (Inl e, tr2) \<Rightarrow> Some (Inl e, tr2)
                     | Some (Inr repos, tr2) \<Rightarrow>
                         (case repo_rows username repos all_repositories of
                            Inl e \<Rightarrow> Some (Inl e, tr2)
                          | Inr all_repositories' \<Rightarrow>
                              process_users w users tr2 (processed_users @ [ud]) all_repositories')))))"

text \<open>
  \<^verbatim>\<open>main\<close>, from the value of the environment variable and the server, up to the two
  tables handed to the CSV writer.
\<close>

definition main ::
  "pystr option \<Rightarrow> world
     \<Rightarrow> ((py_exn + user_record list \<times> repo_record list) \<times> event list) option" where
  "main env w =
     (case get_github_token env of
        (out, Inl e) \<Rightarrow> Some (Inl e, [])
      | (out, Inr token) \<Rightarrow>
          (case fetch_users w [] ''Tokyo'' 200 MAX_USER_PAGES of
             (Inl e, tr) \<Rightarrow> Some (Inl e, tr)
           | (Inr users, tr) \<Rightarrow> process_users w users tr [] []))"

text \<open>
  The user records a run owes to its exchanges, each with the name the details were
  asked for: one for every detail request whose result is truthy.
\<close>

fun user_row :: "event \<Rightarrow> (json \<times> user_record) list" where
  "user_row (UserDetails username, response) =
     (case details_of response of
        Inl e \<Rightarrow> []
      | Inr details \<Rightarrow>
          if \<not> truthy details then []
          else (case user_data details of
                  Inl e \<Rightarrow> []
                | Inr ud \<Rightarrow> [(username, ud)]))"
| "user_row _ = []"

definition user_rows :: "event list \<Rightarrow> (json \<times> user_record) list" where
  "user_rows tr = concat (map user_row tr)"

text \<open>
  A detail fetch has failed for the caller when its result is falsy, as the empty
  mapping returned for a non-success response is: the user is skipped.
\<close>

definition detail_fetch_failed :: "response \<Rightarrow> bool" where
  "detail_fetch_failed response =
     (case details_of response of Inl e \<Rightarrow> False | Inr details \<Rightarrow> \<not> truthy details)"

section \<open>Invariants of the two pagination loops\<close>

text \<open>
  What both loops guarantee about the exchanges \<open>new\<close> of one call that started with
  the accumulator \<open>acc\<close>: an exchange whose response is not a success, or advertises
  no further page, is the last one; and if a response is not a success, the result is
  the accumulator extended by the items of the pages before it.
\<close>

definition pages_post ::
  "(response \<Rightarrow> json list) \<Rightarrow> json list \<Rightarrow> (py_exn + json list) \<Rightarrow> event list \<Rightarrow> bool" where
  "pages_post items acc res new \<longleftrightarrow>
     (\<forall>k<length new.
        (status_code (snd (new ! k)) \<noteq> 200 \<or> \<not> has_next (snd (new ! k)) \<longrightarrow> length new = Suc k) \<and>
        (status_code (snd (new ! k)) \<noteq> 200 \<longrightarrow>
           res = Inr (acc @ concat (map (items \<circ> snd) (take k new)))))"

text \<open>
  The listing loop, started at page \<open>page\<close> with \<open>repos\<close> accumulated: it issues at
  least one request and at most as many as items are missing to the cap, for the pages
  \<open>page\<close>, \<open>page + 1\<close>, ...; and it leaves on a failed response with the accumulator
  it started with or with one below the cap.
\<close>

definition repos_post ::
  "json \<Rightarrow> int \<Rightarrow> int \<Rightarrow> json list \<Rightarrow> (py_exn + json list) \<Rightarrow> event list \<Rightarrow> bool" where
  "repos_post username max_repos page repos res new \<longleftrightarrow>
     new \<noteq> [] \<and>
     int (length new) \<le> max 1 (max_repos - int (length repos)) \<and>
     (\<forall>k<length new. fst (new ! k) = UserRepos username (page + int k)) \<and>
     (status_code (snd (last new)) \<noteq> 200 \<longrightarrow>
        res = Inr repos \<or> (\<exists>acc. res = Inr acc \<and> int (length acc) < max_repos)) \<and>
     pages_post listing_page_items repos res new"

section \<open>Servers and runs used as examples\<close>

definition ok_page :: "json \<Rightarrow> bool \<Rightarrow> response" where
  "ok_page data nxt = \<lparr> status_code = 200, body = Some data, has_next = nxt \<rparr>"

definition error_page :: "int \<Rightarrow> response" where
  "error_page code =
     \<lparr> status_code = code, body = Some (JDict [(''message'', JStr ''error'')]), has_next = False \<rparr>"

text \<open>A server that answers with the responses of a list, then with 404.\<close>

definition serve :: "response list \<Rightarrow> world" where
  "serve rs i = (if i < length rs then rs ! i else error_page 404)"

definition user_a :: json where
  "user_a = JDict [(''login'', JStr ''a'')]"

definition user_b :: json where
  "user_b = JDict [(''login'', JStr ''b'')]"

definition repo_x :: json where
  "repo_x = JDict [(''full_name'', JStr ''b/x''), (''has_wiki'', JBool True), (''license'', JNull)]"

definition repo_y :: json where
  "repo_y = JDict [(''full_name'', JStr ''b/y''), (''has_wiki'', JBool False),
                   (''license'', JDict [(''key'', JStr ''mit'')])]"



text \<open>A search whose every page is empty and advertises a further page.\<close>

definition empty_pages :: world where
  "empty_pages i = ok_page (JDict [(''items'', JList [])]) True"

text \<open>A search whose first page is empty and the last.\<close>

definition empty_last_page :: world where
  "empty_last_page = serve [ok_page (JDict [(''items'', JList [])]) False]"

text \<open>A listing whose every page carries two repositories and advertises a further page.\<close>

definition endless_listing :: world where
  "endless_listing i = ok_page (JList [repo_x, repo_y]) True"

text \<open>
  A whole run: the search finds the users \<open>a\<close> and \<open>b\<close>; the detail fetch of \<open>a\<close>
  fails; \<open>b\<close> has two repositories, the first without a license.
\<close>

definition details_b :: json where
  "details_b = JDict [(''login'', JStr ''b''), (''company'', JStr '' @acme ''),
                      (''hireable'', JBool False), (''followers'', JInt 250)]"

definition demo :: world where
  "demo = serve [ok_page (JDict [(''items'', JList [user_a, user_b])]) False,
                 error_page 404,
                 ok_page details_b False,
                 ok_page (JList [repo_x, repo_y]) False]"

definition demo_trace :: "event list" where
  "demo_trace =
     [(SearchUsers ''Tokyo'' 200 1, demo 0),
      (UserDetails (JStr ''a''), demo 1),
      (UserDetails (JStr ''b''), demo 2),
      (UserRepos (JStr ''b'') 1, demo 3)]"

definition demo_users :: "user_record list" where
  "demo_users =
     [\<lparr> login = JStr ''b'', name = JStr [], company = lit ''ACME'', location = JStr [],
         email = JStr [], hireable = JStr ''false'', bio = JStr [], public_repos = JInt 0,
         followers = JInt 250, following = JInt 0, created_at = JStr [] \<rparr>]"

definition demo_repos :: "repo_record list" where
  "demo_repos =
     [\<lparr> repo_login = JStr ''b'', full_name = JStr ''b/x'', repo_created_at = JStr [],
         stargazers_count = JInt 0, watchers_count = JInt 0, language = JStr [],
         has_projects = JStr [], has_wiki = JStr ''true'', license_name = JStr [] \<rparr>,
      \<lparr> repo_login = JStr ''b'', full_name = JStr ''b/y'', repo_created_at = JStr [],
         stargazers_count = JInt 0, watchers_count = JInt 0, language = JStr [],
         has_projects = JStr [], has_wiki = JStr ''false'', license_name = JStr ''mit'' \<rparr>]"

section \<open>Normalisation of fields\<close>

subsection \<open>Facts about the string operations\<close>

lemma at_sign_64: "at_sign = 64"
  by (simp add: at_sign_def)

lemma unicode_upper_latin1: "unicode_upper latin1_upper"
  unfolding unicode_upper_def
proof (intro conjI allI)
  fix c
  show "latin1_upper c \<noteq> []" by (simp add: latin1_upper_def)
  show "upper latin1_upper (latin1_upper c) = latin1_upper c"
    by (auto simp: upper_def latin1_upper_def)
  show "is_space c \<longrightarrow> latin1_upper c = [c]"
    by (auto simp: is_space_def latin1_upper_def)
  show "\<not> is_space c \<longrightarrow> \<not> is_space (last (latin1_upper c))"
    by (auto simp: is_space_def latin1_upper_def)
next
  show "latin1_upper at_sign = [at_sign]" by (simp add: at_sign_64 latin1_upper_def)
qed


lemma upper_append: "upper u (a @ b) = upper u a @ upper u b"
  by (simp add: upper_def)

lemma upper_Cons: "upper u (c # s) = u c @ upper u s"
  by (simp add: upper_def)

lemma upper_idem:
  assumes "unicode_upper u"
  shows "upper u (upper u s) = upper u s"
proof (induction s)
  case Nil
  show ?case by (simp add: upper_def)
next
  case (Cons c s)
  from assms have "upper u (u c) = u c" by (simp add: unicode_upper_def)
  with Cons show ?case by (simp add: upper_Cons upper_append)
qed

lemma upper_Nil_iff:
  assumes "unicode_upper u"
  shows "upper u s = [] \<longleftrightarrow> s = []"
  using assms by (cases s) (auto simp: upper_Cons unicode_upper_def upper_def)

lemma last_upper:
  assumes "unicode_upper u" "s \<noteq> []"
  shows "last (upper u s) = last (u (last s))"
proof -
  from assms(1) have ne: "u (last s) \<noteq> []" by (simp add: unicode_upper_def)
  from assms(2) have "s = butlast s @ [last s]" by simp
  then have "upper u s = upper u (butlast s) @ u (last s)"
    by (metis upper_append upper_Cons upper_def append_Nil2 concat.simps(1) list.simps(8))
  with ne show ?thesis by simp
qed

lemma upper_spaces:
  assumes "unicode_upper u" "\<forall>c\<in>set s. is_space c"
  shows "upper u s = s"
  using assms(2)
proof (induction s)
  case Nil
  show ?case by (simp add: upper_def)
next
  case (Cons c s)
  with assms(1) have "u c = [c]" by (simp add: unicode_upper_def)
  with Cons show ?case by (simp add: upper_Cons)
qed

lemma upper_tl_at:
  assumes "unicode_upper u" "upper u x = x" "x \<noteq> []" "hd x = at_sign"
  shows "upper u (tl x) = tl x"
proof -
  from assms(3,4) obtain r where x: "x = at_sign # r" by (cases x) auto
  from assms(1) have "u at_sign = [at_sign]" by (simp add: unicode_upper_def)
  with assms(2) show ?thesis unfolding x by (simp add: upper_Cons)
qed

lemma last_strip: "strip s \<noteq> [] \<Longrightarrow> \<not> is_space (last (strip s))"
proof -
  assume a: "strip s \<noteq> []"
  let ?r = "dropWhile is_space (rev (dropWhile is_space s))"
  from a have ne: "?r \<noteq> []" by (simp add: strip_def)
  then have "\<not> is_space (hd ?r)" by (rule hd_dropWhile)
  moreover have "last (strip s) = hd ?r" using ne by (simp add: strip_def last_rev)
  ultimately show ?thesis by simp
qed

lemma strip_trailing:
  assumes "s \<noteq> []" "\<not> is_space (last s)"
  shows "strip s = dropWhile is_space s"
proof -
  let ?d = "dropWhile is_space s"
  from assms have "\<exists>c\<in>set s. \<not> is_space c" using last_in_set by blast
  then have ne: "?d \<noteq> []" by (simp add: dropWhile_eq_Nil_conv)
  have "last (takeWhile is_space s @ ?d) = last ?d" using ne by (rule last_appendR)
  then have "last ?d = last s" by simp
  with assms(2) ne have "\<not> is_space (hd (rev ?d))" by (simp add: hd_rev)
  moreover from ne have "rev ?d \<noteq> []" by simp
  ultimately have "dropWhile is_space (rev ?d) = rev ?d" by (cases "rev ?d") auto
  then show ?thesis by (simp add: strip_def)
qed

subsection \<open>Booleans\<close>

lemma lower_str_bool: "lower (str_bool True) = ''true''" "lower (str_bool False) = ''false''"
  by code_simp+

lemma handle_boolean_bool: "handle_boolean (JBool b) = (if b then ''true'' else ''false'')"
  by (cases b) (simp_all add: handle_boolean_def lower_str_bool)

lemma handle_boolean_other: "(\<forall>b. v \<noteq> JBool b) \<Longrightarrow> handle_boolean v = []"
  by (cases v) (auto simp add: handle_boolean_def)

text \<open>
  Claim C2. \<^verbatim>\<open>handle_boolean\<close> returns \<^verbatim>\<open>"true"\<close> for the boolean true and
  \<^verbatim>\<open>"false"\<close> for the boolean false, the lower-cased \<^verbatim>\<open>str\<close> of the value; for every
  other value, \<^verbatim>\<open>None\<close> included, it returns the empty string.
\<close>

theorem handle_boolean_spec:
  "handle_boolean (JBool True) = ''true'' \<and>
   handle_boolean (JBool False) = ''false'' \<and>
   handle_boolean (JBool b) = lower (str_bool b) \<and>
   ((\<forall>b. v \<noteq> JBool b) \<longrightarrow> handle_boolean v = [])"
  by (simp add: handle_boolean_bool handle_boolean_other lower_str_bool)

theorem handle_boolean_spec_witness:
  "handle_boolean (JBool True) = ''true'' \<and> handle_boolean (JBool False) = ''false'' \<and>
   handle_boolean JNull = [] \<and> handle_boolean (JStr ''true'') = [] \<and> handle_boolean (JInt 1) = []"
  using handle_boolean_spec[of True JNull] handle_boolean_spec[of True "JStr ''true''"]
        handle_boolean_spec[of True "JInt 1"]
  by simp

text \<open>
  Claim C4, as stated: normalising the boolean false and normalising \<^verbatim>\<open>None\<close> give the
  same output. They do not: false gives \<^verbatim>\<open>"false"\<close>, \<^verbatim>\<open>None\<close> gives the empty string.
\<close>

theorem false_and_absent_differ:
  "handle_boolean (JBool False) \<noteq> handle_boolean JNull"
  by (simp add: handle_boolean_bool) (simp add: handle_boolean_def)

text \<open>
  Claim C4, amended. \<^verbatim>\<open>handle_boolean\<close> keeps the boolean false apart from an absent
  value: false gives \<^verbatim>\<open>"false"\<close> and \<^verbatim>\<open>None\<close> gives the empty string. What shares the
  output of \<^verbatim>\<open>None\<close> is every value that is not a boolean.
\<close>

theorem handle_boolean_false_absent:
  "handle_boolean (JBool False) = ''false'' \<and> handle_boolean JNull = [] \<and>
   ((\<forall>b. v \<noteq> JBool b) \<longrightarrow> handle_boolean v = handle_boolean JNull)"
  by (simp add: handle_boolean_bool handle_boolean_other)

theorem handle_boolean_false_absent_witness:
  "handle_boolean (JBool False) = ''false'' \<and> handle_boolean JNull = [] \<and>
   handle_boolean (JStr ''false'') = handle_boolean JNull \<and>
   handle_boolean (JInt 0) = handle_boolean JNull"
  using handle_boolean_false_absent[of "JStr ''false''"] handle_boolean_false_absent[of "JInt 0"]
  by simp

subsection \<open>Company names\<close>

lemma clean_company_str_fixed:
  assumes "unicode_upper u"
  shows "upper u (clean_company_str u s) = clean_company_str u s"
  using upper_idem[OF assms] by (simp add: clean_company_str_def Let_def upper_def)

lemma clean_company_str_last:
  assumes u: "unicode_upper u" and t: "clean_company_str u s \<noteq> []"
  shows "\<not> is_space (last (clean_company_str u s))"
proof -
  let ?c1 = "strip s"
  let ?c2 = "if ?c1 \<noteq> [] \<and> hd ?c1 = at_sign then tl ?c1 else ?c1"
  from t have eq: "clean_company_str u s = upper u ?c2"
    by (auto simp: clean_company_str_def Let_def)
  with t have c2: "?c2 \<noteq> []" using upper_Nil_iff[OF u] by auto
  then have c1: "?c1 \<noteq> []" by (auto split: if_splits)
  have "last ?c2 = last ?c1" using c2 c1 by (auto simp: last_tl split: if_splits)
  then have "\<not> is_space (last ?c2)" using last_strip[OF c1] by simp
  then have "\<not> is_space (last (u (last ?c2)))" using u by (simp add: unicode_upper_def)
  then show ?thesis unfolding eq last_upper[OF u c2] .
qed

lemma clean_company_str_again:
  assumes u: "unicode_upper u" and ne: "t \<noteq> []" and fixed: "upper u t = t"
    and last: "\<not> is_space (last t)"
  shows "clean_company_str u t = t \<longleftrightarrow> hd t \<noteq> at_sign \<and> \<not> is_space (hd t)"
proof -
  let ?w = "takeWhile is_space t"
  let ?d = "dropWhile is_space t"
  have st: "strip t = ?d" using ne last by (rule strip_trailing)
  from ne last have "\<exists>c\<in>set t. \<not> is_space c" using last_in_set by blast
  then have d: "?d \<noteq> []" by (simp add: dropWhile_eq_Nil_conv)
  have split: "upper u ?w @ upper u ?d = ?w @ ?d"
    using fixed upper_append[of u ?w ?d] by simp
  have "upper u ?w = ?w" by (rule upper_spaces[OF u]) (auto dest: set_takeWhileD)
  with split have "?w @ upper u ?d = ?w @ ?d" by (simp only:)
  then have dfix: "upper u ?d = ?d" by (simp only: same_append_eq)
  let ?c2 = "if hd ?d = at_sign then tl ?d else ?d"
  have c2fix: "upper u ?c2 = ?c2" using dfix d upper_tl_at[OF u dfix d] by simp
  have cc: "clean_company_str u t = ?c2"
    using ne d c2fix by (simp add: clean_company_str_def Let_def st)
  have c2len: "length ?c2 \<le> length ?d" by simp
  show ?thesis
  proof (cases "is_space (hd t)")
    case True
    with ne have "length ?d < length t" by (cases t) (auto simp: length_dropWhile_le le_imp_less_Suc)
    with c2len have "?c2 \<noteq> t" by auto
    with cc True show ?thesis by simp
  next
    case False
    with ne have dt: "?d = t" by (cases t) auto
    show ?thesis
    proof (cases "hd t = at_sign")
      case True
      with ne have "length ?c2 < length t" unfolding dt by simp
      then have "?c2 \<noteq> t" by auto
      with cc True show ?thesis by simp
    next
      case at: False
      then have "?c2 = t" unfolding dt by simp
      with cc at False show ?thesis by simp
    qed
  qed
qed

lemma clean_company_JStr:
  "clean_company (JStr s) = Inr (clean_company_str latin1_upper (lit s))"
  by (simp add: clean_company_def clean_company_str_def lit_def)

text \<open>
  Claim C3, as stated: \<^verbatim>\<open>clean_company(clean_company(s)) = clean_company(s)\<close> for every
  string. Only one leading \<^verbatim>\<open>@\<close> is dropped, so \<^verbatim>\<open>"@@acme"\<close> becomes \<^verbatim>\<open>"@ACME"\<close>, and
  normalising that gives \<^verbatim>\<open>"ACME"\<close>.
\<close>

theorem clean_company_not_idempotent:
  "clean_company (JStr ''@@acme'') = Inr (lit ''@ACME'') \<and>
   clean_company (JStr ''@ACME'') = Inr (lit ''ACME'') \<and>
   clean_company_str latin1_upper (lit ''@@acme'') = lit ''@ACME'' \<and>
   clean_company_str latin1_upper (lit ''@ACME'') = lit ''ACME'' \<and>
   lit ''ACME'' \<noteq> lit ''@ACME''"
  by code_simp

text \<open>
  Claim C3, amended. For every Python string \<open>s\<close>, with \<open>t\<close> the string
  \<^verbatim>\<open>clean_company\<close> returns for it: normalising \<open>t\<close> gives \<open>t\<close> again exactly when
  \<open>t\<close> is empty or starts with neither \<^verbatim>\<open>@\<close> nor white space. This holds for every
  table of upper-case mappings with the properties \<open>unicode_upper\<close>, which Unicode's
  has; on a string of the API \<^verbatim>\<open>clean_company\<close> is this function with the table of
  the code points below 256.
\<close>

theorem clean_company_idempotent_iff:
  assumes "unicode_upper to_upper"
  shows "(clean_company_str to_upper (clean_company_str to_upper s) = clean_company_str to_upper s \<longleftrightarrow>
            clean_company_str to_upper s = [] \<or>
            (hd (clean_company_str to_upper s) \<noteq> at_sign \<and>
             \<not> is_space (hd (clean_company_str to_upper s)))) \<and>
         clean_company (JStr x) = Inr (clean_company_str latin1_upper (lit x))"
proof (cases "clean_company_str to_upper s = []")
  case True
  then show ?thesis by (simp add: clean_company_str_def clean_company_JStr)
next
  case False
  from clean_company_str_again[OF assms False clean_company_str_fixed[OF assms]
         clean_company_str_last[OF assms False]] False
  show ?thesis by (simp add: clean_company_JStr)
qed

theorem clean_company_idempotent_iff_witness:
  "unicode_upper latin1_upper \<and>
   clean_company_str latin1_upper (lit ''  @Acme Inc '') = lit ''ACME INC'' \<and>
   clean_company_str latin1_upper (lit ''ACME INC'') = lit ''ACME INC'' \<and>
   clean_company_str latin1_upper [at_sign, 160, 120] = [160, 88] \<and>
   is_space 160 \<and>
   clean_company_str latin1_upper [160, 88] = [88]"
proof -
  have run: "clean_company_str latin1_upper (lit ''  @Acme Inc '') = lit ''ACME INC''" by code_simp
  have start: "hd (lit ''ACME INC'') \<noteq> at_sign \<and> \<not> is_space (hd (lit ''ACME INC''))" by code_simp
  have nbsp: "clean_company_str latin1_upper [at_sign, 160, 120] = [160, 88]"
       "is_space 160" "clean_company_str latin1_upper [160, 88] = [88]" by code_simp+
  from clean_company_idempotent_iff[OF unicode_upper_latin1, of "lit ''  @Acme Inc ''"] run start
  have "clean_company_str latin1_upper (lit ''ACME INC'') = lit ''ACME INC''" by simp
  with run nbsp unicode_upper_latin1 show ?thesis by simp
qed

subsection \<open>The token\<close>

text \<open>
  Claim C7, as stated: the loader aborts whenever the variable is unset or empty after
  trimming. The test comes before the trimming: a value of white space only is returned,
  trimmed to the empty string, and nothing is printed.
\<close>

theorem blank_token_is_returned:
  "strip (lit ''   '') = [] \<and> get_github_token (Some (lit ''   '')) = ([], Inr [])"
  by code_simp

text \<open>
  Claim C7, amended. \<^verbatim>\<open>get_github_token\<close> prints its two-line message and exits with
  status 1 whenever the variable is unset or empty as it stands; otherwise it prints
  nothing and returns the value with the surrounding white space removed.
\<close>

theorem get_github_token_spec:
  "(env = None \<or> env = Some [] \<longrightarrow>
      (\<exists>out code. get_github_token env = (out, Inl (SystemExit code)) \<and> out \<noteq> [] \<and> code \<noteq> 0)) \<and>
   (env = Some token \<and> token \<noteq> [] \<longrightarrow> get_github_token env = ([], Inr (strip token)))"
  by (auto simp: get_github_token_def token_missing_def)

theorem get_github_token_spec_witness:
  "get_github_token None = token_missing \<and> get_github_token (Some []) = token_missing \<and>
   snd token_missing = Inl (SystemExit 1) \<and>
   get_github_token (Some (lit '' ghp_abc '')) = ([], Inr (lit ''ghp_abc''))"
proof -
  have s: "strip (lit '' ghp_abc '') = lit ''ghp_abc''" by code_simp
  have ne: "lit '' ghp_abc '' \<noteq> []" by (simp add: lit_def)
  from get_github_token_spec[of "Some (lit '' ghp_abc '')" "lit '' ghp_abc ''"] s ne
  have "get_github_token (Some (lit '' ghp_abc '')) = ([], Inr (lit ''ghp_abc''))" by simp
  with get_github_token_spec[of None "[]"] get_github_token_spec[of "Some []" "[]"]
  show ?thesis by (auto simp: get_github_token_def token_missing_def)
qed

subsection \<open>The license of a repository\<close>

text \<open>
  Claim C8, as stated: building a repository record never raises, whatever the mapping.
  A license that is a non-empty mapping without the entry \<^verbatim>\<open>key\<close> raises \<open>KeyError\<close>.
\<close>

theorem license_without_key_raises:
  "repo_data (JStr ''b'') (JDict [(''license'', JDict [(''name'', JStr ''MIT License'')])])
     = Inl KeyError"
  by code_simp

lemma repo_data_dict:
  "repo_data username (JDict kvs) =
     (case license_key kvs of
        Inl e \<Rightarrow> Inl e
      | Inr l \<Rightarrow>
          Inr \<lparr> repo_login = username,
                full_name = dict_get kvs ''full_name'' (JStr []),
                repo_created_at = dict_get kvs ''created_at'' (JStr []),
                stargazers_count = dict_get kvs ''stargazers_count'' (JInt 0),
                watchers_count = dict_get kvs ''watchers_count'' (JInt 0),
                language = py_or (dict_get kvs ''language'' JNull) (JStr []),
                has_projects = JStr (handle_boolean (dict_get kvs ''has_projects'' JNull)),
                has_wiki = JStr (handle_boolean (dict_get kvs ''has_wiki'' JNull)),
                license_name = l \<rparr>)"
  by (simp add: repo_data_def)

lemma license_key_falsy:
  "\<not> truthy (dict_get kvs ''license'' JNull) \<Longrightarrow> license_key kvs = Inr (JStr [])"
  by (simp add: license_key_def)

lemma license_key_truthy:
  "truthy (dict_get kvs ''license'' JNull) \<Longrightarrow>
   license_key kvs = py_index (dict_get kvs ''license'' JNull) ''key''"
  by (auto simp: license_key_def dict_get_def split: option.splits)

text \<open>
  Claim C8, amended. For every repository mapping: when the license is absent, null or
  otherwise falsy, the record is built and its \<^verbatim>\<open>license_name\<close> is the empty string;
  when the license is a mapping with an entry \<^verbatim>\<open>key\<close>, the record is built and its
  \<^verbatim>\<open>license_name\<close> is that entry; and the record is built in no other case.
\<close>

theorem license_access_spec:
  "(\<not> truthy (dict_get kvs ''license'' JNull) \<longrightarrow>
      (\<exists>rd. repo_data username (JDict kvs) = Inr rd \<and> license_name rd = JStr [])) \<and>
   (dict_get kvs ''license'' JNull = JDict lic \<and> map_of lic ''key'' = Some v \<longrightarrow>
      (\<exists>rd. repo_data username (JDict kvs) = Inr rd \<and> license_name rd = v)) \<and>
   ((\<exists>rd. repo_data username (JDict kvs) = Inr rd) \<longleftrightarrow>
      \<not> truthy (dict_get kvs ''license'' JNull) \<or>
      (\<exists>lic v. dict_get kvs ''license'' JNull = JDict lic \<and> map_of lic ''key'' = Some v))"
proof (intro conjI impI)
  assume "\<not> truthy (dict_get kvs ''license'' JNull)"
  then show "\<exists>rd. repo_data username (JDict kvs) = Inr rd \<and> license_name rd = JStr []"
    by (simp add: repo_data_dict license_key_falsy)
next
  assume a: "dict_get kvs ''license'' JNull = JDict lic \<and> map_of lic ''key'' = Some v"
  then have "lic \<noteq> []" by auto
  with a have "license_key kvs = Inr v" by (simp add: license_key_truthy)
  then show "\<exists>rd. repo_data username (JDict kvs) = Inr rd \<and> license_name rd = v"
    by (simp add: repo_data_dict)
next
  show "(\<exists>rd. repo_data username (JDict kvs) = Inr rd) \<longleftrightarrow>
      \<not> truthy (dict_get kvs ''license'' JNull) \<or>
      (\<exists>lic v. dict_get kvs ''license'' JNull = JDict lic \<and> map_of lic ''key'' = Some v)"
  proof (cases "truthy (dict_get kvs ''license'' JNull)")
    case False
    then show ?thesis by (simp add: repo_data_dict license_key_falsy)
  next
    case True
    then have "license_key kvs = py_index (dict_get kvs ''license'' JNull) ''key''"
      by (rule license_key_truthy)
    with True show ?thesis
      by (cases "dict_get kvs ''license'' JNull")
         (auto simp: repo_data_dict split: option.splits sum.splits)
  qed
qed

theorem license_access_spec_witness:
  "(\<exists>rd. repo_data (JStr ''b'') repo_x = Inr rd \<and> license_name rd = JStr []) \<and>
   (\<exists>rd. repo_data (JStr ''b'') repo_y = Inr rd \<and> license_name rd = JStr ''mit'') \<and>
   (\<exists>rd. repo_data (JStr ''b'') (JDict []) = Inr rd \<and> license_name rd = JStr [])"
proof -
  have x: "\<not> truthy (dict_get [(''full_name'', JStr ''b/x''), (''has_wiki'', JBool True),
             (''license'', JNull)] ''license'' JNull)" by code_simp
  have y: "dict_get [(''full_name'', JStr ''b/y''), (''has_wiki'', JBool False),
             (''license'', JDict [(''key'', JStr ''mit'')])] ''license'' JNull
             = JDict [(''key'', JStr ''mit'')] \<and>
           map_of [(''key'', JStr ''mit'')] ''key'' = Some (JStr ''mit'')" by code_simp
  have z: "\<not> truthy (dict_get [] ''license'' JNull)" by code_simp
  from x y z
    license_access_spec[of "[(''full_name'', JStr ''b/x''), (''has_wiki'', JBool True),
             (''license'', JNull)]" "JStr ''b''" "[]" JNull]
    license_access_spec[of "[(''full_name'', JStr ''b/y''), (''has_wiki'', JBool False),
             (''license'', JDict [(''key'', JStr ''mit'')])]" "JStr ''b''"
             "[(''key'', JStr ''mit'')]" "JStr ''mit''"]
    license_access_spec[of "[]" "JStr ''b''" "[]" JNull]
  show ?thesis unfolding repo_x_def repo_y_def by blast
qed

section \<open>Properties of the fetchers\<close>

subsection \<open>One pass through a loop body\<close>

lemma users_iteration_fail:
  "status_code r \<noteq> 200 \<Longrightarrow> users_iteration r users = Inr (Break users)"
  by (simp add: users_iteration_def)

lemma users_iteration_Next:
  assumes "users_iteration r users = Inr (Next users')"
  shows "status_code r = 200 \<and> has_next r \<and> users' = users @ search_page_items r"
  using assms
  by (auto simp: users_iteration_def search_page_items_def list_extend_def
           split: if_splits sum.splits)

lemma py_iter_truthy: "truthy d \<Longrightarrow> py_iter d = Inr ys \<Longrightarrow> ys \<noteq> []"
  by (cases d) auto

lemma repos_iteration_fail:
  "status_code r \<noteq> 200 \<Longrightarrow> repos_iteration r m repos = Inr (Break repos)"
  by (simp add: repos_iteration_def)

lemma repos_iteration_Next:
  assumes "repos_iteration r m repos = Inr (Next repos')"
  shows "status_code r = 200 \<and> has_next r \<and> repos' = repos @ listing_page_items r \<and>
         length repos < length repos' \<and> int (length repos') < m"
  using assms
  by (auto simp: repos_iteration_def listing_page_items_def list_extend_def
           split: if_splits sum.splits dest: py_iter_truthy)

subsection \<open>The exchanges of a call\<close>

lemma new_events_append: "new_events tr (tr @ new) = new"
  by (simp add: new_events_def)

lemma pages_post_single:
  assumes "status_code r \<noteq> 200 \<Longrightarrow> res = Inr acc"
  shows "pages_post items acc res [(q, r)]"
  using assms by (simp add: pages_post_def)

lemma pages_post_Cons:
  assumes r: "status_code r = 200" "has_next r"
    and post: "pages_post items (acc @ items r) res new"
  shows "pages_post items acc res ((q, r) # new)"
  unfolding pages_post_def
proof (intro allI impI)
  let ?new = "(q, r) # new"
  fix k assume k: "k < length ?new"
  show "(status_code (snd (?new ! k)) \<noteq> 200 \<or> \<not> has_next (snd (?new ! k)) \<longrightarrow> length ?new = Suc k) \<and>
        (status_code (snd (?new ! k)) \<noteq> 200 \<longrightarrow>
           res = Inr (acc @ concat (map (items \<circ> snd) (take k ?new))))"
  proof (cases k)
    case 0
    with r show ?thesis by simp
  next
    case (Suc j)
    with k have j: "j < length new" by simp
    from post j have
      a: "status_code (snd (new ! j)) \<noteq> 200 \<or> \<not> has_next (snd (new ! j)) \<longrightarrow> length new = Suc j"
      and b: "status_code (snd (new ! j)) \<noteq> 200 \<longrightarrow>
           res = Inr ((acc @ items r) @ concat (map (items \<circ> snd) (take j new)))"
      unfolding pages_post_def by blast+
    from a have "status_code (snd (?new ! k)) \<noteq> 200 \<or> \<not> has_next (snd (?new ! k)) \<longrightarrow> length ?new = Suc k"
      unfolding Suc by simp
    moreover from b have "status_code (snd (?new ! k)) \<noteq> 200 \<longrightarrow>
           res = Inr (acc @ concat (map (items \<circ> snd) (take k ?new)))"
      unfolding Suc by simp
    ultimately show ?thesis by blast
  qed
qed

lemma pages_post_last:
  assumes "pages_post items acc res new" "k < length new"
    "status_code (snd (new ! k)) \<noteq> 200 \<or> \<not> has_next (snd (new ! k))"
  shows "length new = Suc k"
  using assms unfolding pages_post_def by blast


subsection \<open>The search\<close>

lemma fetch_users_loop_post:
  "fetch_users_loop w loc mf pages tr users = (res, tr') \<Longrightarrow>
     \<exists>new. tr' = tr @ new \<and> length new \<le> length pages \<and>
       map fst new = map (SearchUsers loc mf) (take (length new) pages) \<and>
       pages_post search_page_items users res new"
proof (induction pages arbitrary: tr users)
  case Nil
  then show ?case by (simp add: pages_post_def)
next
  case (Cons page pages)
  let ?r = "w (length tr)"
  let ?e = "(SearchUsers loc mf page, ?r)"
  show ?case
  proof (cases "users_iteration ?r users")
    case (Inl e)
    with Cons.prems have out: "res = Inl e" "tr' = tr @ [?e]"
      by (simp_all add: requests_get_def Let_def)
    from Inl have "status_code ?r = 200" using users_iteration_fail[of ?r users] by auto
    then have "pages_post search_page_items users res [?e]" by (simp add: pages_post_single)
    with out show ?thesis by auto
  next
    case (Inr f)
    show ?thesis
    proof (cases f)
      case (Break us')
      with Inr Cons.prems have out: "res = Inr us'" "tr' = tr @ [?e]"
        by (simp_all add: requests_get_def Let_def)
      have "status_code ?r \<noteq> 200 \<Longrightarrow> res = Inr users"
        using users_iteration_fail[of ?r users] Inr Break out by simp
      then have "pages_post search_page_items users res [?e]" by (rule pages_post_single)
      with out show ?thesis by auto
    next
      case (Next us')
      with Inr have it: "users_iteration ?r users = Inr (Next us')" by simp
      with Cons.prems have "fetch_users_loop w loc mf pages (tr @ [?e]) us' = (res, tr')"
        by (simp add: requests_get_def Let_def)
      from Cons.IH[OF this] obtain new where
        new: "tr' = (tr @ [?e]) @ new" "length new \<le> length pages"
             "map fst new = map (SearchUsers loc mf) (take (length new) pages)"
             "pages_post search_page_items us' res new" by blast
      from users_iteration_Next[OF it]
      have r: "status_code ?r = 200" "has_next ?r" and us': "us' = users @ search_page_items ?r"
        by auto
      from new(4) r have "pages_post search_page_items users res (?e # new)"
        unfolding us' by (simp add: pages_post_Cons)
      with new(1-3) show ?thesis by auto
    qed
  qed
qed

lemma fetch_users_post:
  assumes "fetch_users w tr loc mf max_pages = (res, tr')"
  shows "\<exists>new. tr' = tr @ new \<and> int (length new) \<le> max 0 max_pages \<and>
       (\<forall>k<length new. fst (new ! k) = SearchUsers loc mf (int k + 1)) \<and>
       pages_post search_page_items [] res new"
proof -
  from fetch_users_loop_post[OF assms[unfolded fetch_users_def]] obtain new where
    new: "tr' = tr @ new" "length new \<le> length [1..max_pages]"
         "map fst new = map (SearchUsers loc mf) (take (length new) [1..max_pages])"
         "pages_post search_page_items [] res new" by blast
  have len: "int (length new) \<le> max 0 max_pages" using new(2) by simp
  have "\<forall>k<length new. fst (new ! k) = SearchUsers loc mf (int k + 1)"
  proof (intro allI impI)
    fix k assume k: "k < length new"
    then have "fst (new ! k) = map fst new ! k" by simp
    also have "\<dots> = SearchUsers loc mf (take (length new) [1..max_pages] ! k)"
      unfolding new(3) using k new(2) by simp
    also have "take (length new) [1..max_pages] ! k = [1..max_pages] ! k" using k by simp
    also have "[1..max_pages] ! k = 1 + int k" using k len by (intro nth_upto) linarith
    finally show "fst (new ! k) = SearchUsers loc mf (int k + 1)" by (simp add: add.commute)
  qed
  with new(1,4) len show ?thesis by blast
qed

subsection \<open>The listing\<close>

lemma loop_Inl:
  "repos_iteration (w (length tr)) m repos = Inl e \<Longrightarrow>
   fetch_repositories_loop w u m page tr repos = Some (Inl e, tr @ [(UserRepos u page, w (length tr))])"
  by (subst fetch_repositories_loop.simps) (simp add: requests_get_def Let_def)

lemma loop_Break:
  "repos_iteration (w (length tr)) m repos = Inr (Break repos') \<Longrightarrow>
   fetch_repositories_loop w u m page tr repos = Some (Inr repos', tr @ [(UserRepos u page, w (length tr))])"
  by (subst fetch_repositories_loop.simps) (simp add: requests_get_def Let_def)

lemma loop_Next:
  "repos_iteration (w (length tr)) m repos = Inr (Next repos') \<Longrightarrow>
   fetch_repositories_loop w u m page tr repos =
   fetch_repositories_loop w u m (page + 1) (tr @ [(UserRepos u page, w (length tr))]) repos'"
  by (subst fetch_repositories_loop.simps) (simp add: requests_get_def Let_def)

text \<open>
  The loop ends from every state, with the guarantees of \<open>repos_post\<close>: by induction on
  the number of items missing to the cap, which every pass that goes on makes smaller.
\<close>

lemma fetch_repositories_loop_post:
  "\<exists>res new. fetch_repositories_loop w u m page tr repos = Some (res, tr @ new) \<and>
      repos_post u m page repos res new"
proof (induction "nat (m - int (length repos))" arbitrary: page tr repos rule: less_induct)
  case less
  let ?r = "w (length tr)"
  let ?e = "(UserRepos u page, ?r)"
  show ?case
  proof (cases "repos_iteration ?r m repos")
    case (Inl e)
    then have "status_code ?r = 200" using repos_iteration_fail[of ?r m repos] by auto
    then have "repos_post u m page repos (Inl e) [?e]"
      by (simp add: repos_post_def pages_post_single)
    with loop_Inl[where w=w and tr=tr and u=u and page=page, OF Inl] show ?thesis by blast
  next
    case (Inr f)
    show ?thesis
    proof (cases f)
      case (Break repos')
      with Inr have it: "repos_iteration ?r m repos = Inr (Break repos')" by simp
      have "status_code ?r \<noteq> 200 \<Longrightarrow> Inr repos' = (Inr repos :: py_exn + json list)"
        using repos_iteration_fail[of ?r m repos] it by simp
      then have "repos_post u m page repos (Inr repos') [?e]"
        by (auto simp add: repos_post_def pages_post_single)
      with loop_Break[where w=w and tr=tr and u=u and page=page, OF it] show ?thesis by blast
    next
      case (Next repos')
      with Inr have it: "repos_iteration ?r m repos = Inr (Next repos')" by simp
      from repos_iteration_Next[OF it]
      have r: "status_code ?r = 200" "has_next ?r"
        and repos': "repos' = repos @ listing_page_items ?r"
        and len: "length repos < length repos'" "int (length repos') < m" by auto
      from len have "nat (m - int (length repos')) < nat (m - int (length repos))" by linarith
      from less[OF this, of "page + 1" "tr @ [?e]"] obtain res new where
        run: "fetch_repositories_loop w u m (page + 1) (tr @ [?e]) repos' = Some (res, (tr @ [?e]) @ new)"
        and post: "repos_post u m (page + 1) repos' res new" by blast
      have "repos_post u m page repos res (?e # new)"
        unfolding repos_post_def
      proof (intro conjI)
        show "?e # new \<noteq> []" by simp
        from post len show "int (length (?e # new)) \<le> max 1 (m - int (length repos))"
          by (simp add: repos_post_def)
        from post show "\<forall>k<length (?e # new). fst ((?e # new) ! k) = UserRepos u (page + int k)"
          by (auto simp: repos_post_def nth_Cons' algebra_simps)
        from post len show "status_code (snd (last (?e # new))) \<noteq> 200 \<longrightarrow>
            res = Inr repos \<or> (\<exists>acc. res = Inr acc \<and> int (length acc) < m)"
          by (auto simp: repos_post_def)
        from post have "pages_post listing_page_items (repos @ listing_page_items ?r) res new"
          by (simp add: repos_post_def repos')
        with r show "pages_post listing_page_items repos res (?e # new)"
          by (simp add: pages_post_Cons)
      qed
      with run loop_Next[where w=w and tr=tr and u=u and page=page, OF it] show ?thesis by auto
    qed
  qed
qed


lemma fetch_repositories_cases:
  assumes "fetch_repositories_loop w u m 1 tr [] = Some (res0, tr')"
  shows "fetch_repositories w tr u m =
           Some (case res0 of Inl e \<Rightarrow> Inl e | Inr repos \<Rightarrow> Inr (slice_to m repos), tr')"
  using assms by (cases res0) (simp_all add: fetch_repositories_def)



text \<open>
  Claim C9, as stated: after a successful page with an empty \<^verbatim>\<open>items\<close> array no request
  for the next page is issued. The loop of \<^verbatim>\<open>fetch_users\<close> has no test for an empty page:
  when the empty first page advertises a further page, page 2 is requested.
\<close>

theorem empty_page_is_followed:
  "status_code (empty_pages 0) = 200 \<and> search_page_items (empty_pages 0) = [] \<and>
   fetch_users empty_pages [] ''Tokyo'' 200 2 =
     (Inr [], [(SearchUsers ''Tokyo'' 200 1, empty_pages 0),
               (SearchUsers ''Tokyo'' 200 2, empty_pages 1)])"
  by code_simp

text \<open>
  Claim C9, amended. \<^verbatim>\<open>fetch_users\<close> stops at a page that advertises no further page,
  whether or not its \<^verbatim>\<open>items\<close> array is empty: if the response to the request for page
  \<open>k + 1\<close> has no \<^verbatim>\<open>next\<close> link, that request is the last of the call and none is issued
  for page \<open>k + 2\<close>. In any case no more requests are issued than the page cap allows.
\<close>

theorem search_stops_without_next_link:
  assumes "fetch_users w tr loc min_followers max_pages = (res, tr')"
    and "k < length (new_events tr tr')"
    and "\<not> has_next (snd (new_events tr tr' ! k))"
  shows "length (new_events tr tr') = Suc k \<and>
         SearchUsers loc min_followers (int k + 2) \<notin> fst ` set (new_events tr tr') \<and>
         int (length (new_events tr tr')) \<le> max 0 max_pages"
proof -
  from fetch_users_post[OF assms(1)] obtain new where
    new: "tr' = tr @ new" "int (length new) \<le> max 0 max_pages"
         "\<forall>k<length new. fst (new ! k) = SearchUsers loc min_followers (int k + 1)"
         "pages_post search_page_items [] res new" by blast
  from assms(2,3) have k: "k < length new" "\<not> has_next (snd (new ! k))"
    unfolding new(1) new_events_append by simp_all
  have len: "length new = Suc k" using pages_post_last[OF new(4) k(1)] k(2) by simp
  have "SearchUsers loc min_followers (int k + 2) \<notin> fst ` set new"
  proof
    assume "SearchUsers loc min_followers (int k + 2) \<in> fst ` set new"
    then obtain i where i: "i < length new" "fst (new ! i) = SearchUsers loc min_followers (int k + 2)"
      by (auto simp: in_set_conv_nth)
    with new(3) have "int i + 1 = int k + 2" by simp
    with i(1) len show False by simp
  qed
  with len new(2) show ?thesis unfolding new(1) new_events_append by simp
qed

theorem search_stops_without_next_link_witness:
  "fetch_users empty_last_page [] ''Tokyo'' 200 10 =
     (Inr [], [(SearchUsers ''Tokyo'' 200 1, empty_last_page 0)]) \<and>
   \<not> has_next (empty_last_page 0) \<and> search_page_items (empty_last_page 0) = [] \<and>
   SearchUsers ''Tokyo'' 200 2 \<notin> fst ` set [(SearchUsers ''Tokyo'' 200 1, empty_last_page 0)]"
proof -
  let ?new = "[(SearchUsers ''Tokyo'' 200 1, empty_last_page 0)]"
  have run: "fetch_users empty_last_page [] ''Tokyo'' 200 10 = (Inr [], ?new)" by code_simp
  have page: "\<not> has_next (empty_last_page 0)" "search_page_items (empty_last_page 0) = []"
    by code_simp+
  from search_stops_without_next_link[OF run, of 0] page(1)
  have "SearchUsers ''Tokyo'' 200 2 \<notin> fst ` set ?new" by (simp add: new_events_def)
  with run page show ?thesis by simp
qed

text \<open>
  Claim C6. The cap is a number of items, so it is not negative. Then
  \<^verbatim>\<open>fetch_repositories\<close> returns, whoever the user, and a list it returns has at most
  \<open>max_repos\<close> items: it is the first \<open>max_repos\<close> items of what the loop accumulated,
  exactly \<open>max_repos\<close> of them when the last page took the accumulator to the cap or beyond.
  (With a negative bound the slice \<^verbatim>\<open>repos[:max_repos]\<close> drops items from the end
  instead, and "at most \<open>max_repos\<close> items" has no meaning.)
\<close>

theorem listing_respects_cap:
  assumes "0 \<le> max_repos"
  shows "\<exists>res tr'. fetch_repositories w tr username max_repos = Some (res, tr') \<and>
           (\<forall>repos. res = Inr repos \<longrightarrow>
              int (length repos) \<le> max_repos \<and>
              (\<exists>acc. fetch_repositories_loop w username max_repos 1 tr [] = Some (Inr acc, tr') \<and>
                 repos = take (nat max_repos) acc \<and>
                 (max_repos \<le> int (length acc) \<longrightarrow> int (length repos) = max_repos)))"
proof -
  from fetch_repositories_loop_post[of w username max_repos 1 tr "[]"] obtain res0 new where
    run: "fetch_repositories_loop w username max_repos 1 tr [] = Some (res0, tr @ new)" by blast
  let ?res = "case res0 of Inl e \<Rightarrow> Inl e | Inr repos \<Rightarrow> Inr (slice_to max_repos repos)"
  have "\<forall>repos. ?res = Inr repos \<longrightarrow>
              int (length repos) \<le> max_repos \<and>
              (\<exists>acc. fetch_repositories_loop w username max_repos 1 tr [] = Some (Inr acc, tr @ new) \<and>
                 repos = take (nat max_repos) acc \<and>
                 (max_repos \<le> int (length acc) \<longrightarrow> int (length repos) = max_repos))"
    using assms run by (cases res0) (auto simp: slice_to_def)
  with fetch_repositories_cases[OF run] show ?thesis by blast
qed

theorem listing_respects_cap_witness:
  "(0::int) \<le> 3 \<and>
   fetch_repositories endless_listing [] (JStr ''b'') 3 =
     Some (Inr [repo_x, repo_y, repo_x],
           [(UserRepos (JStr ''b'') 1, endless_listing 0), (UserRepos (JStr ''b'') 2, endless_listing 1)]) \<and>
   fetch_repositories_loop endless_listing (JStr ''b'') 3 1 [] [] =
     Some (Inr [repo_x, repo_y, repo_x, repo_y],
           [(UserRepos (JStr ''b'') 1, endless_listing 0), (UserRepos (JStr ''b'') 2, endless_listing 1)]) \<and>
   int (length [repo_x, repo_y, repo_x]) = 3"
proof -
  let ?tr = "[(UserRepos (JStr ''b'') 1, endless_listing 0), (UserRepos (JStr ''b'') 2, endless_listing 1)]"
  have cap: "(0::int) \<le> 3" by simp
  have run: "fetch_repositories endless_listing [] (JStr ''b'') 3 =
               Some (Inr [repo_x, repo_y, repo_x], ?tr)" by code_simp
  have acc: "fetch_repositories_loop endless_listing (JStr ''b'') 3 1 [] [] =
               Some (Inr [repo_x, repo_y, repo_x, repo_y], ?tr)" by code_simp
  from listing_respects_cap[OF cap, of endless_listing "[]" "JStr ''b''"] run acc
  have "int (length [repo_x, repo_y, repo_x]) = 3" by simp
  with run acc show ?thesis by simp
qed

text \<open>
  Claim C10. \<^verbatim>\<open>fetch_repositories\<close> returns for every sequence of responses: a pass
  through the loop that does not leave it adds at least one item and stays below the
  cap, so a call issues at most \<open>max 1 max_repos\<close> requests, which for a cap that is not
  negative is at most the cap plus one.
\<close>

theorem listing_terminates:
  "(\<exists>res tr'. fetch_repositories w tr username max_repos = Some (res, tr') \<and>
       length (new_events tr tr') \<noteq> 0 \<and>
       int (length (new_events tr tr')) \<le> max 1 max_repos \<and>
       (0 \<le> max_repos \<longrightarrow> int (length (new_events tr tr')) \<le> max_repos + 1)) \<and>
   (repos_iteration response max_repos repos = Inr (Next repos') \<longrightarrow>
       length repos < length repos' \<and> int (length repos') < max_repos)"
proof (rule conjI)
  from fetch_repositories_loop_post[of w username max_repos 1 tr "[]"] obtain res0 new where
    run: "fetch_repositories_loop w username max_repos 1 tr [] = Some (res0, tr @ new)"
    and post: "repos_post username max_repos 1 [] res0 new" by blast
  from post have "new \<noteq> []" "int (length new) \<le> max 1 max_repos"
    by (simp_all add: repos_post_def)
  then have "length (new_events tr (tr @ new)) \<noteq> 0 \<and>
       int (length (new_events tr (tr @ new))) \<le> max 1 max_repos \<and>
       (0 \<le> max_repos \<longrightarrow> int (length (new_events tr (tr @ new))) \<le> max_repos + 1)"
    unfolding new_events_append by auto
  with fetch_repositories_cases[OF run]
  show "\<exists>res tr'. fetch_repositories w tr username max_repos = Some (res, tr') \<and>
       length (new_events tr tr') \<noteq> 0 \<and>
       int (length (new_events tr tr')) \<le> max 1 max_repos \<and>
       (0 \<le> max_repos \<longrightarrow> int (length (new_events tr tr')) \<le> max_repos + 1)"
    by blast
next
  show "repos_iteration response max_repos repos = Inr (Next repos') \<longrightarrow>
       length repos < length repos' \<and> int (length repos') < max_repos"
    using repos_iteration_Next[of response max_repos repos repos'] by blast
qed

theorem listing_terminates_witness:
  "fetch_repositories endless_listing [] (JStr ''b'') 5 =
     Some (Inr [repo_x, repo_y, repo_x, repo_y, repo_x],
           [(UserRepos (JStr ''b'') 1, endless_listing 0), (UserRepos (JStr ''b'') 2, endless_listing 1),
            (UserRepos (JStr ''b'') 3, endless_listing 2)]) \<and>
   int (length (new_events [] [(UserRepos (JStr ''b'') 1, endless_listing 0),
            (UserRepos (JStr ''b'') 2, endless_listing 1),
            (UserRepos (JStr ''b'') 3, endless_listing 2)])) \<le> 5 + 1 \<and>
   repos_iteration (endless_listing 0) 5 [] = Inr (Next [repo_x, repo_y]) \<and>
   length ([] :: json list) < length [repo_x, repo_y] \<and> int (length [repo_x, repo_y]) < 5"
proof -
  let ?tr = "[(UserRepos (JStr ''b'') 1, endless_listing 0), (UserRepos (JStr ''b'') 2, endless_listing 1),
            (UserRepos (JStr ''b'') 3, endless_listing 2)]"
  have run: "fetch_repositories endless_listing [] (JStr ''b'') 5 =
     Some (Inr [repo_x, repo_y, repo_x, repo_y, repo_x], ?tr)" by code_simp
  have pass: "repos_iteration (endless_listing 0) 5 [] = Inr (Next [repo_x, repo_y])" by code_simp
  from listing_terminates[of endless_listing "[]" "JStr ''b''" 5 "endless_listing 0" "[]" "[repo_x, repo_y]"]
       run pass
  have "int (length (new_events [] ?tr)) \<le> 5 + 1 \<and>
        length ([] :: json list) < length [repo_x, repo_y] \<and> int (length [repo_x, repo_y]) < 5"
    by auto
  with run pass show ?thesis by simp
qed

section \<open>Properties of the pipeline\<close>

subsection \<open>User records and the exchanges they come from\<close>

lemma user_rows_append: "user_rows (a @ b) = user_rows a @ user_rows b"
  by (simp add: user_rows_def)

lemma user_rows_Cons: "user_rows (e # tr) = user_row e @ user_rows tr"
  by (simp add: user_rows_def)

lemma user_row_other: "\<forall>U. fst e \<noteq> UserDetails U \<Longrightarrow> user_row e = []"
  by (cases e rule: user_row.cases) auto

lemma user_rows_other:
  "\<forall>e\<in>set new. \<forall>U. fst e \<noteq> UserDetails U \<Longrightarrow> user_rows new = []"
  by (induction new) (simp_all add: user_rows_def user_row_other)

lemma user_rows_numbered:
  assumes "\<forall>k<length new. \<exists>p. fst (new ! k) = SearchUsers loc mf p \<or> fst (new ! k) = UserRepos u p"
  shows "user_rows new = []"
proof (rule user_rows_other, intro ballI allI)
  fix e U assume "e \<in> set new"
  then obtain k where "k < length new" "e = new ! k" by (auto simp: in_set_conv_nth)
  with assms show "fst e \<noteq> UserDetails U" by fastforce
qed

lemma user_row_origin:
  "(U, ud) \<in> set (user_row e) \<Longrightarrow>
     \<exists>r d. e = (UserDetails U, r) \<and> details_of r = Inr d \<and> truthy d \<and> user_data d = Inr ud"
proof -
  assume a: "(U, ud) \<in> set (user_row e)"
  obtain q r where e: "e = (q, r)" by (cases e)
  from a e obtain U' where q: "q = UserDetails U'" by (cases q) auto
  from a e q obtain d where d: "details_of r = Inr d" by (cases "details_of r") auto
  from a e q d have t: "truthy d" by (cases "truthy d") auto
  from a e q d t obtain ud' where ud': "user_data d = Inr ud'" by (cases "user_data d") auto
  from a e q d t ud' have "U' = U" "ud' = ud" by auto
  with e q d t ud' show ?thesis by blast
qed

lemma user_rows_origin:
  "(U, ud) \<in> set (user_rows tr) \<Longrightarrow>
     \<exists>r d. (UserDetails U, r) \<in> set tr \<and> details_of r = Inr d \<and> truthy d \<and> user_data d = Inr ud"
  unfolding user_rows_def using user_row_origin by fastforce

subsection \<open>The loop over the users\<close>

lemma repo_rows_post:
  "repo_rows username repos all = Inr all' \<Longrightarrow>
     \<exists>rows. all' = all @ rows \<and> (\<forall>r\<in>set rows. repo_login r = username)"
proof (induction repos arbitrary: all)
  case Nil
  then show ?case by simp
next
  case (Cons repo repos)
  then obtain rd where rd: "repo_data username repo = Inr rd"
    and rest: "repo_rows username repos (all @ [rd]) = Inr all'"
    by (auto split: sum.splits)
  from Cons.IH[OF rest] obtain rows where
    rows: "all' = (all @ [rd]) @ rows" "\<forall>r\<in>set rows. repo_login r = username" by blast
  from rd have "repo_login rd = username"
    by (auto simp: repo_data_def split: json.splits sum.splits)
  with rows have "all' = all @ (rd # rows) \<and> (\<forall>r\<in>set (rd # rows). repo_login r = username)"
    by simp
  then show ?case by blast
qed

lemma fetch_repositories_trace:
  assumes "fetch_repositories w tr u m = Some (res, tr')"
  shows "\<exists>new. tr' = tr @ new \<and> user_rows new = []"
proof -
  from fetch_repositories_loop_post[of w u m 1 tr "[]"] obtain res0 new where
    run: "fetch_repositories_loop w u m 1 tr [] = Some (res0, tr @ new)"
    and post: "repos_post u m 1 [] res0 new" by blast
  from post have "\<forall>k<length new. fst (new ! k) = UserRepos u (1 + int k)"
    by (simp add: repos_post_def)
  then have "user_rows new = []" by (intro user_rows_numbered[where u=u]) blast
  moreover from assms fetch_repositories_cases[OF run] have "tr' = tr @ new" by simp
  ultimately show ?thesis by blast
qed

lemma process_users_post:
  "process_users w users tr pu ar = Some (Inr (pu', ar'), tr') \<Longrightarrow>
     \<exists>new. tr' = tr @ new \<and> pu' = pu @ map snd (user_rows new) \<and>
       (\<forall>r\<in>set ar'. r \<in> set ar \<or> repo_login r \<in> fst ` set (user_rows new))"
proof (induction users arbitrary: tr pu ar)
  case Nil
  then show ?case by (simp add: user_rows_def)
next
  case (Cons user users)
  from Cons.prems obtain username where un: "py_get user ''login'' JNull = Inr username"
    by (auto split: sum.splits)
  let ?r = "w (length tr)"
  let ?e = "(UserDetails username, ?r)"
  have fd: "fetch_user_details w tr username = (details_of ?r, tr @ [?e])"
    by (simp add: fetch_user_details_def requests_get_def Let_def)
  from Cons.prems un fd obtain details where d: "details_of ?r = Inr details"
    by (cases "details_of ?r") auto
  show ?case
  proof (cases "truthy details")
    case False
    with Cons.prems un fd d
    have "process_users w users (tr @ [?e]) pu ar = Some (Inr (pu', ar'), tr')" by simp
    from Cons.IH[OF this] obtain new where
      new: "tr' = (tr @ [?e]) @ new" "pu' = pu @ map snd (user_rows new)"
           "\<forall>r\<in>set ar'. r \<in> set ar \<or> repo_login r \<in> fst ` set (user_rows new)" by blast
    have "user_rows (?e # new) = user_rows new" using d False by (simp add: user_rows_Cons)
    with new have "tr' = tr @ (?e # new) \<and> pu' = pu @ map snd (user_rows (?e # new)) \<and>
       (\<forall>r\<in>set ar'. r \<in> set ar \<or> repo_login r \<in> fst ` set (user_rows (?e # new)))" by simp
    then show ?thesis by blast
  next
    case True
    with Cons.prems un fd d obtain ud where ud: "user_data details = Inr ud"
      by (cases "user_data details") auto
    from Cons.prems un fd d True ud obtain repos tr2 where
      fr: "fetch_repositories w (tr @ [?e]) username MAX_REPOS_PER_USER = Some (Inr repos, tr2)"
      by (auto split: option.splits sum.splits prod.splits)
    from Cons.prems un fd d True ud fr obtain ar1 where
      rr: "repo_rows username repos ar = Inr ar1"
      and rec: "process_users w users tr2 (pu @ [ud]) ar1 = Some (Inr (pu', ar'), tr')"
      by (auto split: sum.splits)
    from fetch_repositories_trace[OF fr] obtain newr where
      newr: "tr2 = (tr @ [?e]) @ newr" "user_rows newr = []" by blast
    from repo_rows_post[OF rr] obtain rows where
      rows: "ar1 = ar @ rows" "\<forall>r\<in>set rows. repo_login r = username" by blast
    from Cons.IH[OF rec] obtain new where
      new: "tr' = tr2 @ new" "pu' = (pu @ [ud]) @ map snd (user_rows new)"
           "\<forall>r\<in>set ar'. r \<in> set ar1 \<or> repo_login r \<in> fst ` set (user_rows new)" by blast
    let ?new = "?e # newr @ new"
    have ur: "user_rows ?new = (username, ud) # user_rows new"
      using d True ud newr(2) by (simp add: user_rows_Cons user_rows_append)
    have "tr' = tr @ ?new" using new(1) newr(1) by simp
    moreover have "pu' = pu @ map snd (user_rows ?new)" using new(2) ur by simp
    moreover have "\<forall>r\<in>set ar'. r \<in> set ar \<or> repo_login r \<in> fst ` set (user_rows ?new)"
    proof
      fix r assume "r \<in> set ar'"
      with new(3) have "r \<in> set ar1 \<or> repo_login r \<in> fst ` set (user_rows new)" by blast
      then show "r \<in> set ar \<or> repo_login r \<in> fst ` set (user_rows ?new)"
        unfolding ur using rows by auto
    qed
    ultimately show ?thesis by blast
  qed
qed

lemma main_post:
  assumes "main env w = Some (Inr (users, repos), tr)"
  shows "users = map snd (user_rows tr) \<and> repo_login ` set repos \<subseteq> fst ` set (user_rows tr)"
proof -
  from assms obtain found tr1 where
    fu: "fetch_users w [] ''Tokyo'' 200 MAX_USER_PAGES = (Inr found, tr1)"
    and pr: "process_users w found tr1 [] [] = Some (Inr (users, repos), tr)"
    by (auto simp: main_def split: prod.splits sum.splits)
  from fetch_users_post[OF fu] obtain new1 where
    new1: "tr1 = [] @ new1" "\<forall>k<length new1. fst (new1 ! k) = SearchUsers ''Tokyo'' 200 (int k + 1)"
    by blast
  from new1(2) have "user_rows new1 = []"
    by (intro user_rows_numbered[where loc="''Tokyo''" and mf=200]) blast
  with new1(1) have none: "user_rows tr1 = []" by simp
  from process_users_post[OF pr] obtain new where
    new: "tr = tr1 @ new" "users = [] @ map snd (user_rows new)"
         "\<forall>r\<in>set repos. r \<in> set [] \<or> repo_login r \<in> fst ` set (user_rows new)" by blast
  have "user_rows tr = user_rows new" unfolding new(1) by (simp add: user_rows_append none)
  with new(2,3) show ?thesis by auto
qed

text \<open>
  Claim C5. When \<^verbatim>\<open>main\<close> reaches its output, the user table is the list of the records
  built from the detail fetches that succeeded, each of them from the truthy answer to a
  detail request of the run, and the login of every repository record is the name one of
  those fetches asked for. In particular a name \<open>U\<close> whose every detail fetch failed (the
  empty mapping of a non-success response, or any other falsy answer) is the login of no
  repository record, and no user record is owed to it.
\<close>

theorem repositories_only_of_fetched_users:
  assumes "main env w = Some (Inr (users, repos), tr)"
  shows "users = map snd (user_rows tr) \<and>
         repo_login ` set repos \<subseteq> fst ` set (user_rows tr) \<and>
         (\<forall>V ud. (V, ud) \<in> set (user_rows tr) \<longrightarrow>
            (\<exists>response details. (UserDetails V, response) \<in> set tr \<and>
               details_of response = Inr details \<and> truthy details \<and> user_data details = Inr ud)) \<and>
         ((\<forall>e\<in>set tr. fst e = UserDetails U \<longrightarrow> detail_fetch_failed (snd e)) \<longrightarrow>
            U \<notin> repo_login ` set repos \<and> U \<notin> fst ` set (user_rows tr))"
proof -
  note post = main_post[OF assms]
  have failed: "U \<notin> fst ` set (user_rows tr)"
    if all: "\<forall>e\<in>set tr. fst e = UserDetails U \<longrightarrow> detail_fetch_failed (snd e)"
  proof
    assume "U \<in> fst ` set (user_rows tr)"
    then obtain ud where "(U, ud) \<in> set (user_rows tr)" by auto
    from user_rows_origin[OF this] obtain r d where
      r: "(UserDetails U, r) \<in> set tr" "details_of r = Inr d" "truthy d" by blast
    from all r(1) have "detail_fetch_failed r" by fastforce
    with r(2,3) show False by (simp add: detail_fetch_failed_def)
  qed
  from post failed user_rows_origin show ?thesis by blast
qed

theorem repositories_only_of_fetched_users_witness:
  "main (Some (lit ''ghp_abc'')) demo = Some (Inr (demo_users, demo_repos), demo_trace) \<and>
   demo_users = map snd (user_rows demo_trace) \<and>
   repo_login ` set demo_repos \<subseteq> fst ` set (user_rows demo_trace) \<and>
   [e \<leftarrow> demo_trace. fst e = UserDetails (JStr ''a'')] = [(UserDetails (JStr ''a''), demo 1)] \<and>
   detail_fetch_failed (demo 1) \<and>
   JStr ''a'' \<notin> repo_login ` set demo_repos \<and>
   JStr ''a'' \<notin> fst ` set (user_rows demo_trace)"
proof -
  have run: "main (Some (lit ''ghp_abc'')) demo = Some (Inr (demo_users, demo_repos), demo_trace)"
    by code_simp
  have a: "[e \<leftarrow> demo_trace. fst e = UserDetails (JStr ''a'')] = [(UserDetails (JStr ''a''), demo 1)]"
    by (simp add: demo_trace_def)
  have f: "detail_fetch_failed (demo 1)" by code_simp
  have "\<forall>e\<in>set [e \<leftarrow> demo_trace. fst e = UserDetails (JStr ''a'')]. detail_fetch_failed (snd e)"
    unfolding a using f by simp
  then have all: "\<forall>e\<in>set demo_trace. fst e = UserDetails (JStr ''a'') \<longrightarrow> detail_fetch_failed (snd e)"
    by auto
  from repositories_only_of_fetched_users[OF run, of "JStr ''a''"] all run a f
  show ?thesis by blast
qed

end
